theory Spec2Isabelle
  imports Main "HOL-Library.Word" "HOL-Library.Sublist"
begin

unbundle bit_operations_syntax

text \<open>
  A shallow embedding of \<^verbatim>\<open>redis.go\<close>: the server error type, the unchecked integer
  parser, address normalisation, the client constructor, and the channel protocol between
  the command primitives, \<^verbatim>\<open>send\<close>, \<^verbatim>\<open>Terminate\<close> and the connection manager
  \<^verbatim>\<open>manage\<close>.
\<close>

section \<open>Definitions\<close>

subsection \<open>ParseInt\<close>

text \<open>
  Go's \<^verbatim>\<open>[]byte\<close> is a list of 8-bit words, \<^verbatim>\<open>uint64\<close> a 64-bit word. The conversion
  \<^verbatim>\<open>int64(u)\<close> keeps the bits, so the result is the same word, read with \<open>sint\<close>.
  \<^verbatim>\<open>bytes[i]-'0'\<close> is computed on bytes (wrapping at 8 bits) and then widened;
  \<^verbatim>\<open>u -= '0'\<close> and \<^verbatim>\<open>u*10 + ...\<close> wrap at 64 bits.
\<close>

type_synonym byte = "8 word"

definition bytes_of :: "string \<Rightarrow> byte list" where
  "bytes_of s = map (\<lambda>c. of_nat (of_char c)) s"

primrec ParseInt_loop :: "64 word \<Rightarrow> byte list \<Rightarrow> 64 word" where
  "ParseInt_loop u [] = u"
| "ParseInt_loop u (b # bs) = ParseInt_loop (u * 10 + ucast (b - 0x30)) bs"

definition ParseInt :: "byte list \<Rightarrow> 64 word" where
  "ParseInt bytes =
     (case bytes of
        [] \<Rightarrow> 0
      | b0 # rest \<Rightarrow>
          let u = (ucast b0 :: 64 word);
              neg = (u = 0x2D);
              u = (if neg then 0 else u - 0x30);
              u = ParseInt_loop u rest;
              val = u
          in if neg then - val else val)"

text \<open>
  What the claim calls a well-formed optional-minus decimal and the integer it denotes,
  written from the claim's words (not from the code): an optional \<^verbatim>\<open>-\<close> followed by one
  or more decimal digits, read in base ten over the unbounded integers.
\<close>

definition is_digit :: "byte \<Rightarrow> bool" where
  "is_digit b = (0x30 \<le> b \<and> b \<le> 0x39)"

definition digits_value :: "byte list \<Rightarrow> int" where
  "digits_value ds = foldl (\<lambda>a d. a * 10 + (uint d - 48)) 0 ds"

definition well_formed_decimal :: "byte list \<Rightarrow> bool" where
  "well_formed_decimal bs =
     (case bs of [] \<Rightarrow> False
      | b # ds \<Rightarrow> if b = 0x2D then ds \<noteq> [] \<and> list_all is_digit ds
                  else list_all is_digit (b # ds))"

definition decimal_value :: "byte list \<Rightarrow> int" where
  "decimal_value bs =
     (case bs of [] \<Rightarrow> 0
      | b # ds \<Rightarrow> if b = 0x2D then - digits_value ds else digits_value (b # ds))"

subsection \<open>ServerError.Prefix\<close>

text \<open>
  A Go string is a sequence of bytes; \<^verbatim>\<open>for i, r := range s\<close> decodes it as UTF-8:
  a byte below \<^verbatim>\<open>0x80\<close> is its own rune and the index advances by one, otherwise the
  runtime's \<^verbatim>\<open>decoderune\<close> yields the rune and the next index, or \<^verbatim>\<open>0xFFFD\<close> and an
  advance of one byte on an invalid sequence. Runes and byte values are natural numbers.
\<close>

type_synonym ServerError = string

definition runeError :: nat where "runeError = 0xFFFD"
definition runeSelf :: nat where "runeSelf = 0x80"
definition maxRune :: nat where "maxRune = 0x10FFFF"
definition surrogateMin :: nat where "surrogateMin = 0xD800"
definition surrogateMax :: nat where "surrogateMax = 0xDFFF"

definition byte_at :: "string \<Rightarrow> nat \<Rightarrow> nat" where
  "byte_at s i = of_char (s ! i)"

definition is_cont :: "string \<Rightarrow> nat \<Rightarrow> bool" where
  "is_cont s i = (0x80 \<le> byte_at s i \<and> byte_at s i \<le> 0xBF)"

definition decoderune :: "string \<Rightarrow> nat \<Rightarrow> nat \<times> nat" where
  "decoderune s k =
     (if k \<ge> length s then (runeError, k + 1)
      else
        let b0 = byte_at s k; n = length s - k in
        if 0xC0 \<le> b0 \<and> b0 < 0xE0 then
          (if n > 1 \<and> is_cont s (k + 1) then
             let r = push_bit 6 (b0 AND 0x1F) OR (byte_at s (k + 1) AND 0x3F) in
             if 2 ^ 7 - 1 < r then (r, k + 2) else (runeError, k + 1)
           else (runeError, k + 1))
        else if 0xE0 \<le> b0 \<and> b0 < 0xF0 then
          (if n > 2 \<and> is_cont s (k + 1) \<and> is_cont s (k + 2) then
             let r = push_bit 12 (b0 AND 0x0F) OR push_bit 6 (byte_at s (k + 1) AND 0x3F)
                       OR (byte_at s (k + 2) AND 0x3F) in
             if 2 ^ 11 - 1 < r \<and> \<not> (surrogateMin \<le> r \<and> r \<le> surrogateMax)
             then (r, k + 3) else (runeError, k + 1)
           else (runeError, k + 1))
        else if 0xF0 \<le> b0 \<and> b0 < 0xF8 then
          (if n > 3 \<and> is_cont s (k + 1) \<and> is_cont s (k + 2) \<and> is_cont s (k + 3) then
             let r = push_bit 18 (b0 AND 0x07) OR push_bit 12 (byte_at s (k + 1) AND 0x3F)
                       OR push_bit 6 (byte_at s (k + 2) AND 0x3F) OR (byte_at s (k + 3) AND 0x3F) in
             if 2 ^ 16 - 1 < r \<and> r \<le> maxRune then (r, k + 4) else (runeError, k + 1)
           else (runeError, k + 1))
        else (runeError, k + 1))"

definition range_next :: "string \<Rightarrow> nat \<Rightarrow> nat \<times> nat" where
  "range_next s i =
     (let hv2 = byte_at s i in
      if hv2 < runeSelf then (hv2, i + 1) else decoderune s i)"

lemma decoderune_pos: "k < snd (decoderune s k)"
  by (simp add: decoderune_def Let_def)

lemma range_next_pos: "i < snd (range_next s i)"
  by (simp add: range_next_def Let_def decoderune_pos)

function Prefix_range :: "string \<Rightarrow> nat \<Rightarrow> string" where
  "Prefix_range s i =
     (if i < length s then
        (case range_next s i of
           (r, i') \<Rightarrow> if r = of_char (CHR '' '') then take i s else Prefix_range s i')
      else s)"
  by pat_completeness auto
termination
proof (relation "measure (\<lambda>(s, i). length s - i)")
  show "wf (measure (\<lambda>(s, i). length s - i))" by simp
next
  fix s :: string and i x y :: nat
  assume "i < length s" and "(x, y) = range_next s i"
  then have "i < y" using range_next_pos [of i s] by (metis snd_conv)
  with \<open>i < length s\<close> show "((s, y), (s, i)) \<in> measure (\<lambda>(s, i). length s - i)"
    by simp
qed

definition Prefix :: "ServerError \<Rightarrow> string" where
  "Prefix e = Prefix_range e 0"


text \<open>
  The claim's "leading whitespace-delimited token", from the claim's words: the longest
  prefix free of whitespace (space, tab, line feed, vertical tab, form feed, carriage return).
\<close>

definition is_whitespace :: "char \<Rightarrow> bool" where
  "is_whitespace c = (c \<in> {CHR '' '', CHR 0x09, CHR 0x0A, CHR 0x0B, CHR 0x0C, CHR 0x0D})"

definition leading_token :: "string \<Rightarrow> string" where
  "leading_token s = takeWhile (\<lambda>c. \<not> is_whitespace c) s"

subsection \<open>Address normalisation\<close>

text \<open>
  \<^verbatim>\<open>normalizeAddr\<close> calls three functions of Go's standard library, modelled here as
  the library defines them: \<^verbatim>\<open>net.SplitHostPort\<close>, \<^verbatim>\<open>net.JoinHostPort\<close> and
  \<^verbatim>\<open>filepath.Clean\<close> (on Unix: no volume name, separator \<^verbatim>\<open>/\<close>).
  \<^verbatim>\<open>bytealg.IndexByteString\<close> and \<^verbatim>\<open>LastIndexByteString\<close> return \<open>None\<close> where
  Go returns \<open>-1\<close>. \<^verbatim>\<open>Clean\<close> writes into a buffer \<open>out\<close> (Go's \<^verbatim>\<open>lazybuf\<close>,
  whose write index \<^verbatim>\<open>w\<close> is the length of \<open>out\<close>) while reading the rest of the path;
  \<^verbatim>\<open>backtrack\<close> is the inner loop of the \<^verbatim>\<open>..\<close> case that moves \<^verbatim>\<open>w\<close> back to the
  last separator.
\<close>

definition isUnixAddr :: "string \<Rightarrow> bool" where
  "isUnixAddr s = (length s \<noteq> 0 \<and> s ! 0 = CHR ''/'')"

fun IndexByteString :: "string \<Rightarrow> char \<Rightarrow> nat option" where
  "IndexByteString [] c = None"
| "IndexByteString (x # xs) c =
     (if x = c then Some 0 else map_option Suc (IndexByteString xs c))"

fun LastIndexByteString :: "string \<Rightarrow> char \<Rightarrow> nat option" where
  "LastIndexByteString [] c = None"
| "LastIndexByteString (x # xs) c =
     (case LastIndexByteString xs c of
        Some i \<Rightarrow> Some (Suc i)
      | None \<Rightarrow> if x = c then Some 0 else None)"

datatype AddrError = AddrError (Err: string) (Addr: string)

definition missingPort :: string where "missingPort = ''missing port in address''"
definition tooManyColons :: string where "tooManyColons = ''too many colons in address''"

definition addrErr :: "string \<Rightarrow> string \<Rightarrow> AddrError + string \<times> string" where
  "addrErr addr why = Inl (AddrError why addr)"

definition SplitHostPort_rest ::
  "string \<Rightarrow> string \<Rightarrow> nat \<Rightarrow> nat \<Rightarrow> nat \<Rightarrow> AddrError + string \<times> string" where
  "SplitHostPort_rest hostport host i j k =
     (if IndexByteString (drop j hostport) CHR ''['' \<noteq> None
        then addrErr hostport (''unexpected '' @ [CHR 0x27] @ ''['' @ [CHR 0x27] @ '' in address'')
      else if IndexByteString (drop k hostport) CHR '']'' \<noteq> None
        then addrErr hostport (''unexpected '' @ [CHR 0x27] @ '']'' @ [CHR 0x27] @ '' in address'')
      else Inr (host, drop (i + 1) hostport))"

definition SplitHostPort :: "string \<Rightarrow> AddrError + string \<times> string" where
  "SplitHostPort hostport =
     (case LastIndexByteString hostport CHR '':'' of
        None \<Rightarrow> addrErr hostport missingPort
      | Some i \<Rightarrow>
          if hostport ! 0 = CHR ''['' then
            (case IndexByteString hostport CHR '']'' of
               None \<Rightarrow> addrErr hostport (''missing '' @ [CHR 0x27] @ '']'' @ [CHR 0x27] @ '' in address'')
             | Some e \<Rightarrow>
                 if e + 1 = length hostport then addrErr hostport missingPort
                 else if e + 1 = i then
                   SplitHostPort_rest hostport (drop 1 (take e hostport)) i 1 (e + 1)
                 else if hostport ! (e + 1) = CHR '':'' then addrErr hostport tooManyColons
                 else addrErr hostport missingPort)
          else
            if IndexByteString (take i hostport) CHR '':'' \<noteq> None
              then addrErr hostport tooManyColons
            else SplitHostPort_rest hostport (take i hostport) i 0 0)"

definition JoinHostPort :: "string \<Rightarrow> string \<Rightarrow> string" where
  "JoinHostPort host port =
     (if IndexByteString host CHR '':'' \<noteq> None then ''['' @ host @ '']:'' @ port
      else host @ '':'' @ port)"

fun backtrack :: "nat \<Rightarrow> string \<Rightarrow> nat \<Rightarrow> nat" where
  "backtrack dotdot buf w =
     (if w > dotdot \<and> buf ! w \<noteq> CHR ''/'' then backtrack dotdot buf (w - 1) else w)"

declare backtrack.simps [simp del]

lemma length_dropWhile_less:
  "\<not> P c \<Longrightarrow> length (dropWhile (\<lambda>x. \<not> P x) (c # cs)) < Suc (length cs)"
  by (simp add: length_dropWhile_le le_imp_less_Suc)

function clean_loop :: "bool \<Rightarrow> string \<Rightarrow> nat \<Rightarrow> string \<Rightarrow> string" where
  "clean_loop rooted out dotdot [] = out"
| "clean_loop rooted out dotdot (c # cs) =
     (if c = CHR ''/'' then clean_loop rooted out dotdot cs
      else if c = CHR ''.'' \<and> (cs = [] \<or> hd cs = CHR ''/'') then clean_loop rooted out dotdot cs
      else if c = CHR ''.'' \<and> hd cs = CHR ''.'' \<and> (tl cs = [] \<or> hd (tl cs) = CHR ''/'') then
        (if length out > dotdot then
           clean_loop rooted (take (backtrack dotdot out (length out - 1)) out) dotdot (tl cs)
         else if \<not> rooted then
           clean_loop rooted ((if length out > 0 then out @ ''/'' else out) @ ''..'')
             (length ((if length out > 0 then out @ ''/'' else out) @ ''..'')) (tl cs)
         else clean_loop rooted out dotdot (tl cs))
      else
        clean_loop rooted
          ((if rooted \<and> length out \<noteq> 1 \<or> \<not> rooted \<and> length out \<noteq> 0 then out @ ''/'' else out)
             @ takeWhile (\<lambda>x. \<not> x = CHR ''/'') (c # cs))
          dotdot (dropWhile (\<lambda>x. \<not> x = CHR ''/'') (c # cs)))"
  by pat_completeness auto
termination
  apply (relation "measure (\<lambda>(rooted, out, dotdot, rest). length rest)")
  apply (auto simp: length_dropWhile_le le_imp_less_Suc)
  done

declare clean_loop.simps [simp del]

definition Clean :: "string \<Rightarrow> string" where
  "Clean path =
     (if path = [] then ''.''
      else
        let rooted = (path ! 0 = CHR ''/'');
            out = (if rooted then clean_loop rooted ''/'' 1 (drop 1 path)
                   else clean_loop rooted [] 0 path)
        in if length out = 0 then ''.'' else out)"

definition normalizeAddr :: "string \<Rightarrow> string" where
  "normalizeAddr s =
     (if isUnixAddr s then Clean s
      else
        let (host, port) = (case SplitHostPort s of Inl err \<Rightarrow> (s, []) | Inr hp \<Rightarrow> hp);
            host = (if host = [] then ''localhost'' else host);
            port = (if port = [] then ''6379'' else port)
        in JoinHostPort host port)"

text \<open>
  Auxiliary notions for the statements below. A rooted path in canonical form is \<^verbatim>\<open>/\<close>
  or a sequence of elements, each preceded by one separator, none of them empty,
  \<^verbatim>\<open>.\<close> or \<^verbatim>\<open>..\<close>. \<open>is_dot\<close> and \<open>is_dotdot\<close> name the second and third case of
  the loop of \<^verbatim>\<open>Clean\<close>.
\<close>

definition good_elem :: "string \<Rightarrow> bool" where
  "good_elem e = (e \<noteq> [] \<and> CHR ''/'' \<notin> set e \<and> e \<noteq> ''.'' \<and> e \<noteq> ''..'')"

definition join_elems :: "string list \<Rightarrow> string" where
  "join_elems es = concat (map (\<lambda>e. CHR ''/'' # e) es)"

definition rootpath :: "string list \<Rightarrow> string" where
  "rootpath es = (if es = [] then ''/'' else join_elems es)"

definition is_dot :: "char \<Rightarrow> string \<Rightarrow> bool" where
  "is_dot c cs = (c = CHR ''.'' \<and> (cs = [] \<or> hd cs = CHR ''/''))"

definition is_dotdot :: "char \<Rightarrow> string \<Rightarrow> bool" where
  "is_dotdot c cs = (c = CHR ''.'' \<and> hd cs = CHR ''.'' \<and> (tl cs = [] \<or> hd (tl cs) = CHR ''/''))"

definition no_brackets :: "string \<Rightarrow> bool" where
  "no_brackets x = (CHR ''['' \<notin> set x \<and> CHR '']'' \<notin> set x)"



text \<open>
  The lexical cleaning of a rooted path, stated on its elements and written from the
  words of the claim and of the documentation of \<^verbatim>\<open>filepath.Clean\<close>, not from its loop:
  \<open>split_on\<close> cuts a string at every separator (two adjacent separators, a leading or a
  trailing one leave an empty element); \<open>resolve\<close> goes through the elements with the
  elements kept so far, drops an empty element and a \<^verbatim>\<open>.\<close> element, lets a \<^verbatim>\<open>..\<close>
  element remove the last element kept (none at the root) and keeps any other element.
  \<open>squeeze_separators\<close> is the claim's "used verbatim apart from cleaning redundant
  separators": only the empty elements are dropped, and the others are joined, each after
  one separator. \<open>after_elem\<close> is an auxiliary for the proofs: the elements that follow the
  first separator of a string.
\<close>

fun split_on :: "char \<Rightarrow> string \<Rightarrow> string list" where
  "split_on c [] = [[]]"
| "split_on c (x # xs) =
     (if x = c then [] # split_on c xs
      else (case split_on c xs of [] \<Rightarrow> [[x]] | e # es \<Rightarrow> (x # e) # es))"




subsection \<open>The client\<close>

text \<open>
  The \<^verbatim>\<open>Client\<close> struct. Its channel fields are made by \<^verbatim>\<open>NewClient\<close> with fixed
  capacities; the record keeps each channel's capacity, and the channels' contents are
  part of the state of the running system. \<^verbatim>\<open>time.Duration\<close> counts nanoseconds.
\<close>

definition queueSizeTCP :: nat where "queueSizeTCP = 128"
definition queueSizeUnix :: nat where "queueSizeUnix = 512"
definition time_Second :: int where "time_Second = 1000000000"

record Client =
  Addr :: string
  timeout :: int
  connectTimeout :: int
  writeSem_cap :: nat
  writeErr_cap :: nat
  queue_cap :: nat
  offline_cap :: nat
  quit_cap :: nat

definition NewClient :: "string \<Rightarrow> int \<Rightarrow> int \<Rightarrow> Client" where
  "NewClient addr timeout' connectTimeout' =
     (let addr = normalizeAddr addr;
          connectTimeout' = (if connectTimeout' = 0 then time_Second else connectTimeout');
          queueSize = (if isUnixAddr addr then queueSizeUnix else queueSizeTCP)
      in \<lparr>Addr = addr, timeout = timeout', connectTimeout = connectTimeout',
          writeSem_cap = 1, writeErr_cap = 1, queue_cap = queueSize,
          offline_cap = 0, quit_cap = 1\<rparr>)"

section \<open>Properties\<close>

subsection \<open>ParseInt\<close>

lemma digit_ucast:
  assumes "is_digit b"
  shows "(ucast (b - 0x30) :: 64 word) = ucast b - 0x30"
proof -
  have le: "(0x30 :: byte) \<le> b" using assms by (simp add: is_digit_def)
  have "uint (b - 0x30) = uint b - uint (0x30 :: byte)"
    using le by (simp add: uint_minus_simple_alt)
  then have e: "uint (b - 0x30) = uint b - 48" by simp
  have "(ucast (b - 0x30) :: 64 word) = word_of_int (uint (b - 0x30))"
    by (rule ucast_eq)
  also have "\<dots> = word_of_int (uint b - 48)" by (simp only: e)
  also have "\<dots> = word_of_int (uint b) - word_of_int 48" by (simp only: wi_hom_sub)
  also have "\<dots> = ucast b - 0x30" by (simp only: ucast_eq [symmetric] word_of_int_numeral)
  finally show ?thesis .
qed

lemma digit_step:
  "is_digit d \<Longrightarrow>
   word_of_int a * 10 + ucast (d - 0x30) = (word_of_int (a * 10 + (uint d - 48)) :: 64 word)"
  by (simp add: digit_ucast)

lemma digit_not_minus: "is_digit b \<Longrightarrow> (ucast b :: 64 word) \<noteq> 0x2D"
proof
  assume d: "is_digit b" and e: "(ucast b :: 64 word) = 0x2D"
  have "uint (ucast b :: 64 word) = uint b" by (simp add: uint_up_ucast is_up)
  with e have "uint b = 45" by simp
  moreover have "48 \<le> uint b" using d by (simp add: is_digit_def word_le_def)
  ultimately show False by simp
qed

lemma ParseInt_loop_int:
  "list_all is_digit ds \<Longrightarrow>
   ParseInt_loop (word_of_int a) ds = word_of_int (foldl (\<lambda>a d. a * 10 + (uint d - 48)) a ds)"
proof (induction ds arbitrary: a)
  case Nil
  then show ?case by simp
next
  case (Cons d ds)
  then have d: "is_digit d" and ds: "list_all is_digit ds" by simp_all
  have "ParseInt_loop (word_of_int a) (d # ds) =
        ParseInt_loop (word_of_int (a * 10 + (uint d - 48))) ds"
    by (simp only: ParseInt_loop.simps digit_step [OF d])
  also have "\<dots> = word_of_int (foldl (\<lambda>a d. a * 10 + (uint d - 48)) (a * 10 + (uint d - 48)) ds)"
    by (rule Cons.IH [OF ds])
  finally show ?case by (simp only: foldl.simps)
qed

lemma ParseInt_Cons:
  "ParseInt (b0 # rest) =
     (if (ucast b0 :: 64 word) = 0x2D then - ParseInt_loop 0 rest
      else ParseInt_loop (ucast b0 - 0x30) rest)"
  by (simp add: ParseInt_def Let_def)

lemma ParseInt_digits:
  assumes "list_all is_digit (b # ds)"
  shows "ParseInt (b # ds) = word_of_int (digits_value (b # ds))"
proof -
  have b: "is_digit b" and ds: "list_all is_digit ds" using assms by simp_all
  have "ParseInt (b # ds) = ParseInt_loop (ucast b - 0x30) ds"
    using digit_not_minus [OF b] by (simp only: ParseInt_Cons if_False)
  also have "(ucast b :: 64 word) - 0x30 = word_of_int (0 * 10 + (uint b - 48))"
    by simp
  also have "ParseInt_loop \<dots> ds =
      word_of_int (foldl (\<lambda>a d. a * 10 + (uint d - 48)) (0 * 10 + (uint b - 48)) ds)"
    by (rule ParseInt_loop_int [OF ds])
  finally show ?thesis by (simp only: digits_value_def foldl.simps)
qed

lemma ParseInt_minus:
  assumes "list_all is_digit ds"
  shows "ParseInt (0x2D # ds) = - word_of_int (digits_value ds)"
proof -
  have "(ucast (0x2D :: byte) :: 64 word) = 0x2D" by simp
  then have "ParseInt (0x2D # ds) = - ParseInt_loop 0 ds"
    by (simp only: ParseInt_Cons if_True refl)
  then have "ParseInt (0x2D # ds) = - ParseInt_loop (word_of_int 0) ds"
    by (simp only: word_of_int_0)
  then show ?thesis
    by (simp only: ParseInt_loop_int [OF assms] digits_value_def)
qed

lemma sint_in_range:
  "- (2 ^ 63) \<le> v \<Longrightarrow> v < 2 ^ 63 \<Longrightarrow> sint (word_of_int v :: 64 word) = v"
  by (simp add: sint_sbintrunc' signed_take_bit_int_eq_self)


lemma ParseInt_in_range:
  assumes "well_formed_decimal bs" "- (2 ^ 63) \<le> decimal_value bs" "decimal_value bs < 2 ^ 63"
  shows "sint (ParseInt bs) = decimal_value bs"
proof (cases bs)
  case Nil
  then show ?thesis using assms by (simp add: well_formed_decimal_def)
next
  case (Cons b ds)
  have "ParseInt bs = word_of_int (decimal_value bs)"
  proof (cases "b = 0x2D")
    case True
    have ds: "list_all is_digit ds"
      using assms(1) Cons True by (simp add: well_formed_decimal_def)
    have "decimal_value bs = - digits_value ds"
      using Cons True by (simp add: decimal_value_def)
    moreover have "ParseInt bs = - word_of_int (digits_value ds)"
      using Cons True ParseInt_minus [OF ds] by (simp only:)
    ultimately show ?thesis by (simp only: wi_hom_neg)
  next
    case False
    have ds: "list_all is_digit (b # ds)"
      using assms(1) Cons False by (simp add: well_formed_decimal_def)
    have "decimal_value bs = digits_value (b # ds)"
      using Cons False by (simp add: decimal_value_def)
    then show ?thesis
      using Cons ParseInt_digits [OF ds] by (simp only:)
  qed
  then show ?thesis using assms(2,3)
    by (simp only: sint_in_range)
qed

text \<open>
  C7, as stated, fails: the byte string \<^verbatim>\<open>9223372036854775808\<close> is a well-formed decimal,
  but \<^verbatim>\<open>ParseInt\<close> returns \<open>-9223372036854775808\<close> for it, since the accumulator is a
  \<^verbatim>\<open>uint64\<close> converted to \<^verbatim>\<open>int64\<close>.
\<close>

theorem ParseInt_out_of_range_counterexample:
  "well_formed_decimal (bytes_of ''9223372036854775808'') \<and>
   decimal_value (bytes_of ''9223372036854775808'') = 9223372036854775808 \<and>
   sint (ParseInt (bytes_of ''9223372036854775808'')) = - 9223372036854775808"
  by (simp add: well_formed_decimal_def decimal_value_def digits_value_def is_digit_def
      bytes_of_def ParseInt_def)

text \<open>
  C7, amended: \<^verbatim>\<open>ParseInt\<close> returns 0 for the empty input, \<open>-123\<close> for \<^verbatim>\<open>"-123"\<close>,
  123 for \<^verbatim>\<open>"123"\<close>, and for every well-formed optional-minus decimal byte string whose
  value lies in the \<^verbatim>\<open>int64\<close> range it returns the denoted integer.
\<close>

theorem ParseInt_correct:
  "sint (ParseInt []) = 0 \<and>
   sint (ParseInt (bytes_of ''-123'')) = - 123 \<and>
   sint (ParseInt (bytes_of ''123'')) = 123 \<and>
   (\<forall>bs. well_formed_decimal bs \<and> - (2 ^ 63) \<le> decimal_value bs \<and> decimal_value bs < 2 ^ 63
      \<longrightarrow> sint (ParseInt bs) = decimal_value bs)"
proof (intro conjI allI impI)
  show "sint (ParseInt []) = 0" by (simp add: ParseInt_def)
  show "sint (ParseInt (bytes_of ''-123'')) = - 123" by (simp add: ParseInt_def bytes_of_def)
  show "sint (ParseInt (bytes_of ''123'')) = 123" by (simp add: ParseInt_def bytes_of_def)
next
  fix bs
  assume "well_formed_decimal bs \<and> - (2 ^ 63) \<le> decimal_value bs \<and> decimal_value bs < 2 ^ 63"
  then show "sint (ParseInt bs) = decimal_value bs"
    by (simp add: ParseInt_in_range)
qed

theorem ParseInt_correct_witness:
  "well_formed_decimal (bytes_of ''-9223372036854775808'') \<and>
   decimal_value (bytes_of ''-9223372036854775808'') = - 9223372036854775808 \<and>
   sint (ParseInt (bytes_of ''-9223372036854775808'')) = - 9223372036854775808"
proof -
  have wf: "well_formed_decimal (bytes_of ''-9223372036854775808'')"
    by (simp add: well_formed_decimal_def is_digit_def bytes_of_def)
  have v: "decimal_value (bytes_of ''-9223372036854775808'') = - 9223372036854775808"
    by (simp add: decimal_value_def digits_value_def bytes_of_def)
  have "sint (ParseInt (bytes_of ''-9223372036854775808'')) =
        decimal_value (bytes_of ''-9223372036854775808'')"
    using ParseInt_correct wf v by simp
  with wf v show ?thesis by simp
qed

subsection \<open>ServerError.Prefix\<close>

declare Prefix_range.simps [simp del]

lemma of_char_space: "(of_char c :: nat) = 32 \<longleftrightarrow> c = CHR '' ''"
proof -
  have "(of_char (CHR '' '') :: nat) = 32" by simp
  then show ?thesis by (metis of_char_eq_iff)
qed

lemma decoderune_facts:
  assumes "k < length s" "decoderune s k = (r, k')"
  shows "r \<noteq> 32" "k' \<le> length s" "\<forall>j. k < j \<and> j < k' \<longrightarrow> is_cont s j"
proof -
  have r: "r = runeError \<or> 127 < r"
    using assms by (auto simp: decoderune_def Let_def split: if_splits)
  then show "r \<noteq> 32" by (auto simp: runeError_def)
  show "k' \<le> length s"
    using assms by (auto simp: decoderune_def Let_def split: if_splits)
  have "k' = k + 1 \<or> (k' = k + 2 \<and> is_cont s (k + 1))
        \<or> (k' = k + 3 \<and> is_cont s (k + 1) \<and> is_cont s (k + 2))
        \<or> (k' = k + 4 \<and> is_cont s (k + 1) \<and> is_cont s (k + 2) \<and> is_cont s (k + 3))"
    using assms by (auto simp: decoderune_def Let_def split: if_splits)
  then show "\<forall>j. k < j \<and> j < k' \<longrightarrow> is_cont s j"
  proof (intro allI impI)
    fix j assume j: "k < j \<and> j < k'"
    then have "j = k + 1 \<or> j = k + 2 \<or> j = k + 3 \<or> k + 4 \<le> j" by arith
    with j \<open>k' = k + 1 \<or> _\<close> show "is_cont s j" by auto
  qed
qed

lemma range_next_facts:
  assumes "i < length s" "range_next s i = (r, i')"
  shows "i < i'" "i' \<le> length s" "r = 32 \<longleftrightarrow> s ! i = CHR '' ''"
    "\<forall>j. i < j \<and> j < i' \<longrightarrow> s ! j \<noteq> CHR '' ''"
proof -
  show "i < i'" using range_next_pos [of i s] assms(2) by simp
  show "i' \<le> length s"
    using assms decoderune_facts(2) [of i s r i']
    by (auto simp: range_next_def Let_def split: if_splits)
  show "r = 32 \<longleftrightarrow> s ! i = CHR '' ''"
  proof (cases "byte_at s i < runeSelf")
    case True
    then have "r = byte_at s i" using assms(2) by (simp add: range_next_def Let_def)
    then show ?thesis by (simp add: byte_at_def of_char_space)
  next
    case False
    then have "decoderune s i = (r, i')" using assms(2) by (simp add: range_next_def Let_def)
    then have "r \<noteq> 32" using decoderune_facts(1) [OF assms(1)] by simp
    moreover have "s ! i \<noteq> CHR '' ''"
      using False of_char_space [of "s ! i"] by (auto simp: byte_at_def runeSelf_def)
    ultimately show ?thesis by simp
  qed
  show "\<forall>j. i < j \<and> j < i' \<longrightarrow> s ! j \<noteq> CHR '' ''"
  proof (intro allI impI)
    fix j assume j: "i < j \<and> j < i'"
    then have "i' \<noteq> i + 1" by arith
    then have "decoderune s i = (r, i')"
      using assms(2) by (auto simp: range_next_def Let_def split: if_splits)
    then have "is_cont s j" using decoderune_facts(3) [OF assms(1)] j by blast
    then show "s ! j \<noteq> CHR '' ''"
      using of_char_space [of "s ! j"] by (auto simp: is_cont_def byte_at_def)
  qed
qed

lemma Prefix_range_takeWhile:
  "i \<le> length s \<Longrightarrow> \<forall>j<i. s ! j \<noteq> CHR '' '' \<Longrightarrow>
   Prefix_range s i = takeWhile (\<lambda>c. c \<noteq> CHR '' '') s"
proof (induction s i rule: Prefix_range.induct)
  case (1 s i)
  show ?case
  proof (cases "i < length s")
    case False
    then have "i = length s" using "1.prems"(1) by simp
    then have "\<forall>c\<in>set s. c \<noteq> CHR '' ''"
      using "1.prems"(2) by (auto simp: in_set_conv_nth)
    then have tw: "takeWhile (\<lambda>c. c \<noteq> CHR '' '') s = s" by (simp add: takeWhile_eq_all_conv)
    have "Prefix_range s i = s" using False by (simp add: Prefix_range.simps)
    then show ?thesis using tw by (simp only:)
  next
    case True
    obtain r i' where rn: "range_next s i = (r, i')" by (cases "range_next s i")
    note f = range_next_facts [OF True rn]
    show ?thesis
    proof (cases "r = 32")
      case True
      then have "s ! i = CHR '' ''" using f(3) by simp
      then have "takeWhile (\<lambda>c. c \<noteq> CHR '' '') s = take i s"
        using "1.prems"(2) by (intro takeWhile_eq_take_P_nth) auto
      then show ?thesis using \<open>i < length s\<close> rn True
        by (simp add: Prefix_range.simps [of s i])
    next
      case False
      then have si: "s ! i \<noteq> CHR '' ''" using f(3) by simp
      have "\<forall>j<i'. s ! j \<noteq> CHR '' ''"
      proof (intro allI impI)
        fix j assume "j < i'"
        then consider "j < i" | "j = i" | "i < j \<and> j < i'" by arith
        then show "s ! j \<noteq> CHR '' ''"
          using "1.prems"(2) si f(4) by cases auto
      qed
      moreover have "r \<noteq> of_char (CHR '' '')" using False by simp
      ultimately have "Prefix_range s i' = takeWhile (\<lambda>c. c \<noteq> CHR '' '') s"
        using "1.IH" [OF True rn [symmetric] _ f(2)] by blast
      then show ?thesis using True rn False
        by (simp add: Prefix_range.simps [of s i])
    qed
  qed
qed


text \<open>
  C8, as stated, fails: only the space character delimits. For the error text
  \<^verbatim>\<open>ERR<TAB>wrong\<close> the leading whitespace-delimited token is \<^verbatim>\<open>ERR\<close>, but
  \<^verbatim>\<open>Prefix\<close> returns the whole string.
\<close>

theorem Prefix_tab_counterexample:
  "leading_token (''ERR'' @ [CHR 0x09] @ ''wrong'') = ''ERR'' \<and>
   Prefix (''ERR'' @ [CHR 0x09] @ ''wrong'') = ''ERR'' @ [CHR 0x09] @ ''wrong''"
  by (simp add: leading_token_def is_whitespace_def Prefix_def Prefix_range.simps
      range_next_def byte_at_def runeSelf_def)

text \<open>
  C8, amended: for every server error string, \<^verbatim>\<open>Prefix\<close> returns the text before the
  first space character (U+0020), and the whole string when it holds no space; Prefix of
  \<^verbatim>\<open>ERR wrong number of arguments\<close> is \<^verbatim>\<open>ERR\<close> and Prefix of \<^verbatim>\<open>OOM\<close> is \<^verbatim>\<open>OOM\<close>.
\<close>

theorem Prefix_first_space:
  "Prefix s = takeWhile (\<lambda>c. c \<noteq> CHR '' '') s \<and>
   Prefix ''ERR wrong number of arguments'' = ''ERR'' \<and>
   Prefix ''OOM'' = ''OOM''"
  by (simp add: Prefix_def Prefix_range_takeWhile)

subsection \<open>Address normalisation\<close>

lemma join_elems_simps [simp]:
  "join_elems [] = []"
  "join_elems (e # es) = CHR ''/'' # e @ join_elems es"
  "join_elems (es @ fs) = join_elems es @ join_elems fs"
  by (simp_all add: join_elems_def)

lemma rootpath_length_1: "list_all good_elem ds \<Longrightarrow> length (rootpath ds) = 1 \<longleftrightarrow> ds = []"
  by (cases ds) (auto simp: rootpath_def good_elem_def)

lemma rootpath_snoc:
  assumes "list_all good_elem ds"
  shows "(if length (rootpath ds) \<noteq> 1 then rootpath ds @ ''/'' else rootpath ds) @ e
         = rootpath (ds @ [e])"
  using rootpath_length_1 [OF assms] by (auto simp: rootpath_def)

lemma backtrack_buf:
  assumes "CHR ''/'' \<notin> set e" "k \<le> length e" "d \<le> length pre + k"
  shows "backtrack d (pre @ CHR ''/'' # e) (length pre + k) = max d (length pre)"
  using assms(2,3)
proof (induction k)
  case 0
  then show ?case by (simp add: backtrack.simps [of d _ "length pre"])
next
  case (Suc k)
  let ?buf = "pre @ CHR ''/'' # e"
  have nth: "?buf ! (length pre + Suc k) = e ! k"
    by (simp add: nth_append)
  have "e ! k \<noteq> CHR ''/''" using assms(1) Suc.prems(1) by (metis Suc_le_lessD nth_mem)
  show ?case
  proof (cases "length pre + Suc k > d")
    case True
    then have "backtrack d ?buf (length pre + Suc k) = backtrack d ?buf (length pre + k)"
      using nth \<open>e ! k \<noteq> CHR ''/''\<close>
      by (subst backtrack.simps) simp
    then show ?thesis using Suc True by simp
  next
    case False
    then have "d = length pre + Suc k" using Suc.prems by simp
    then show ?thesis by (subst backtrack.simps) simp
  qed
qed

lemma backtrack_rootpath:
  assumes "list_all good_elem (ds @ [e])"
  shows "take (backtrack 1 (rootpath (ds @ [e])) (length (rootpath (ds @ [e])) - 1))
           (rootpath (ds @ [e])) = rootpath ds"
proof -
  have e: "CHR ''/'' \<notin> set e" "e \<noteq> []" using assms by (auto simp: good_elem_def)
  have ds: "list_all good_elem ds" using assms by simp
  have rp: "rootpath (ds @ [e]) = join_elems ds @ CHR ''/'' # e" by (simp add: rootpath_def)
  have len: "length (join_elems ds @ CHR ''/'' # e) - 1 = length (join_elems ds) + length e"
    by simp
  have d: "1 \<le> length (join_elems ds) + length e" using e(2) by (cases e) auto
  have bt: "backtrack 1 (join_elems ds @ CHR ''/'' # e) (length (join_elems ds) + length e)
        = max 1 (length (join_elems ds))"
    by (rule backtrack_buf [OF e(1) le_refl d])
  have bt': "backtrack 1 (rootpath (ds @ [e])) (length (rootpath (ds @ [e])) - 1)
        = max 1 (length (join_elems ds))"
    using bt by (simp only: rp len)
  show ?thesis
  proof (cases ds)
    case Nil
    then show ?thesis unfolding bt' by (simp add: rootpath_def)
  next
    case (Cons a as)
    then have m: "max 1 (length (join_elems ds)) = length (join_elems ds)" by simp
    have "take (backtrack 1 (rootpath (ds @ [e])) (length (rootpath (ds @ [e])) - 1))
            (rootpath (ds @ [e]))
          = take (length (join_elems ds)) (rootpath (ds @ [e]))"
      by (simp only: bt' m)
    also have "\<dots> = take (length (join_elems ds)) (join_elems ds @ CHR ''/'' # e)"
      by (simp only: rp)
    also have "\<dots> = join_elems ds" by simp
    also have "\<dots> = rootpath ds" using Cons by (simp add: rootpath_def)
    finally show ?thesis .
  qed
qed


lemma clean_loop_Cons:
  "clean_loop rooted out dotdot (c # cs) =
     (if c = CHR ''/'' then clean_loop rooted out dotdot cs
      else if is_dot c cs then clean_loop rooted out dotdot cs
      else if is_dotdot c cs then
        (if length out > dotdot then
           clean_loop rooted (take (backtrack dotdot out (length out - 1)) out) dotdot (tl cs)
         else if \<not> rooted then
           clean_loop rooted ((if length out > 0 then out @ ''/'' else out) @ ''..'')
             (length ((if length out > 0 then out @ ''/'' else out) @ ''..'')) (tl cs)
         else clean_loop rooted out dotdot (tl cs))
      else
        clean_loop rooted
          ((if rooted \<and> length out \<noteq> 1 \<or> \<not> rooted \<and> length out \<noteq> 0 then out @ ''/'' else out)
             @ takeWhile (\<lambda>x. \<not> x = CHR ''/'') (c # cs))
          dotdot (dropWhile (\<lambda>x. \<not> x = CHR ''/'') (c # cs)))"
  by (simp only: clean_loop.simps(2) is_dot_def is_dotdot_def)

lemma clean_loop_rooted_elem:
  assumes "c \<noteq> CHR ''/''" "\<not> is_dot c cs" "\<not> is_dotdot c cs"
  shows "clean_loop True out 1 (c # cs) =
     clean_loop True ((if length out \<noteq> 1 then out @ ''/'' else out)
        @ takeWhile (\<lambda>x. \<not> x = CHR ''/'') (c # cs)) 1
       (dropWhile (\<lambda>x. \<not> x = CHR ''/'') (c # cs))"
  by (simp only: clean_loop_Cons assms if_False simp_thms)

lemma clean_loop_rooted_skip:
  assumes "c = CHR ''/'' \<or> is_dot c cs"
  shows "clean_loop True out 1 (c # cs) = clean_loop True out 1 cs"
  using assms by (auto simp only: clean_loop_Cons split: if_splits)

lemma clean_loop_rooted_dotdot:
  assumes "c \<noteq> CHR ''/''" "\<not> is_dot c cs" "is_dotdot c cs"
  shows "clean_loop True out 1 (c # cs) =
     (if length out > 1 then
        clean_loop True (take (backtrack 1 out (length out - 1)) out) 1 (tl cs)
      else clean_loop True out 1 (tl cs))"
  by (simp only: clean_loop_Cons assms if_False if_True simp_thms)

lemma elem_good:
  assumes "c \<noteq> CHR ''/''" "\<not> is_dot c cs" "\<not> is_dotdot c cs"
  shows "good_elem (takeWhile (\<lambda>x. \<not> x = CHR ''/'') (c # cs))"
proof -
  let ?P = "\<lambda>x. \<not> x = CHR ''/''"
  have e: "takeWhile ?P (c # cs) = c # takeWhile ?P cs" using assms(1) by simp
  have no_slash: "CHR ''/'' \<notin> set (takeWhile ?P (c # cs))"
    by (metis (mono_tags, lifting) set_takeWhileD)
  have not_dot: "takeWhile ?P (c # cs) \<noteq> ''.''"
  proof
    assume "takeWhile ?P (c # cs) = ''.''"
    with e have "c # takeWhile ?P cs = [CHR ''.'']" by (simp only:)
    then have "c = CHR ''.''" "takeWhile ?P cs = []" by simp_all
    then have "is_dot c cs"
      unfolding is_dot_def by (cases cs) (auto split: if_splits)
    with assms(2) show False by simp
  qed
  have not_dotdot: "takeWhile ?P (c # cs) \<noteq> ''..''"
  proof
    assume "takeWhile ?P (c # cs) = ''..''"
    with e have "c # takeWhile ?P cs = [CHR ''.'', CHR ''.'']" by (simp only:)
    then have c: "c = CHR ''.''" and t: "takeWhile ?P cs = ''.''" by simp_all
    from t obtain cs' where cs: "cs = CHR ''.'' # cs'" and t': "takeWhile ?P cs' = []"
      by (cases cs) (auto split: if_splits)
    from t' have "cs' = [] \<or> hd cs' = CHR ''/''" by (cases cs') (auto split: if_splits)
    with c cs assms(3) show False by (simp add: is_dotdot_def)
  qed
  show ?thesis using e no_slash not_dot not_dotdot by (simp add: good_elem_def)
qed

lemma clean_loop_rooted_canonical:
  "list_all good_elem ds \<Longrightarrow>
   \<exists>ds'. list_all good_elem ds' \<and> clean_loop True (rootpath ds) 1 rest = rootpath ds'"
proof (induction "length rest" arbitrary: rest ds rule: less_induct)
  case less
  show ?case
  proof (cases rest)
    case Nil
    then show ?thesis using less.prems by (auto simp: clean_loop.simps)
  next
    case (Cons c cs)
    have IH: "\<And>r d. length r < length rest \<Longrightarrow> list_all good_elem d \<Longrightarrow>
        \<exists>ds'. list_all good_elem ds' \<and> clean_loop True (rootpath d) 1 r = rootpath ds'"
      using less.hyps by blast
    consider (skip) "c = CHR ''/'' \<or> is_dot c cs"
      | (dotdot) "c \<noteq> CHR ''/''" "\<not> is_dot c cs" "is_dotdot c cs"
      | (elem) "c \<noteq> CHR ''/''" "\<not> is_dot c cs" "\<not> is_dotdot c cs"
      by blast
    then show ?thesis
    proof cases
      case skip
      have "clean_loop True (rootpath ds) 1 rest = clean_loop True (rootpath ds) 1 cs"
        unfolding Cons by (rule clean_loop_rooted_skip [OF skip])
      then show ?thesis using IH [of cs ds] Cons less.prems by simp
    next
      case dotdot
      then have cs: "cs \<noteq> []" by (auto simp: is_dot_def is_dotdot_def)
      then have lt: "length (tl cs) < length rest" using Cons by (cases cs) auto
      note step = clean_loop_rooted_dotdot [OF dotdot, of "rootpath ds"]
      show ?thesis
      proof (cases "ds = []")
        case True
        then have "clean_loop True (rootpath ds) 1 rest = clean_loop True (rootpath ds) 1 (tl cs)"
          unfolding Cons step by (simp add: rootpath_def)
        then show ?thesis using IH [OF lt less.prems] by simp
      next
        case False
        then obtain bs b where ds: "ds = bs @ [b]" by (metis rev_exhaust)
        have "rootpath ds \<noteq> []" by (cases ds) (simp_all add: rootpath_def)
        then have "length (rootpath ds) \<noteq> 0" by simp
        moreover have "length (rootpath ds) \<noteq> 1"
          using rootpath_length_1 [OF less.prems] False by simp
        ultimately have "1 < length (rootpath ds)" by arith
        then have "clean_loop True (rootpath ds) 1 rest =
            clean_loop True (take (backtrack 1 (rootpath ds) (length (rootpath ds) - 1)) (rootpath ds)) 1 (tl cs)"
          unfolding Cons step by simp
        also have "\<dots> = clean_loop True (rootpath bs) 1 (tl cs)"
          using backtrack_rootpath [of bs b] less.prems ds by simp
        finally show ?thesis using IH [OF lt, of bs] less.prems ds by simp
      qed
    next
      case elem
      let ?e = "takeWhile (\<lambda>x. \<not> x = CHR ''/'') (c # cs)"
      let ?r = "dropWhile (\<lambda>x. \<not> x = CHR ''/'') (c # cs)"
      have g: "good_elem ?e" by (rule elem_good [OF elem])
      have lt: "length ?r < length rest"
        using Cons elem(1) by (simp add: length_dropWhile_le le_imp_less_Suc)
      have "clean_loop True (rootpath ds) 1 rest =
          clean_loop True ((if length (rootpath ds) \<noteq> 1 then rootpath ds @ ''/'' else rootpath ds) @ ?e) 1 ?r"
        unfolding Cons by (rule clean_loop_rooted_elem [OF elem])
      also have "\<dots> = clean_loop True (rootpath (ds @ [?e])) 1 ?r"
        by (simp only: rootpath_snoc [OF less.prems])
      finally show ?thesis using IH [OF lt, of "ds @ [?e]"] less.prems g by simp
    qed
  qed
qed


lemma clean_loop_rooted_slash:
  "clean_loop True out 1 (CHR ''/'' # cs) = clean_loop True out 1 cs"
  by (rule clean_loop_rooted_skip) simp

lemma good_elem_step:
  assumes "good_elem e" "rest = [] \<or> hd rest = CHR ''/''"
  shows "clean_loop True out 1 (e @ rest) =
     clean_loop True ((if length out \<noteq> 1 then out @ ''/'' else out) @ e) 1 rest"
proof -
  let ?P = "\<lambda>x. \<not> x = CHR ''/''"
  obtain c cs where e: "e = c # cs" using assms(1) by (cases e) (auto simp: good_elem_def)
  have c: "c \<noteq> CHR ''/''" and cs: "CHR ''/'' \<notin> set cs"
    using assms(1) e by (auto simp: good_elem_def)
  have nd: "\<not> is_dot c (cs @ rest)"
    using assms(1) e cs by (cases cs) (auto simp: is_dot_def good_elem_def)
  have ndd: "\<not> is_dotdot c (cs @ rest)"
  proof
    assume dd: "is_dotdot c (cs @ rest)"
    then have "c = CHR ''.''" by (simp add: is_dotdot_def)
    moreover have "cs \<noteq> []" using assms(1) e \<open>c = CHR ''.''\<close> by (auto simp: good_elem_def)
    then obtain d ds where ds: "cs = d # ds" by (cases cs) auto
    moreover have "d = CHR ''.''" using dd ds by (simp add: is_dotdot_def)
    moreover have "ds \<noteq> []" using assms(1) e calculation by (auto simp: good_elem_def)
    then obtain x xs where "ds = x # xs" by (cases ds) auto
    moreover have "x \<noteq> CHR ''/''" using cs ds calculation by auto
    ultimately show False using dd by (simp add: is_dotdot_def)
  qed
  have all: "\<forall>x\<in>set e. ?P x" using assms(1) by (auto simp: good_elem_def)
  have tw: "takeWhile ?P (e @ rest) = e"
    using all assms(2) by (cases rest) (simp_all add: takeWhile_append2)
  have dw: "dropWhile ?P (e @ rest) = rest"
    using all assms(2) by (cases rest) (simp_all add: dropWhile_append2)
  have "clean_loop True out 1 (c # (cs @ rest)) =
     clean_loop True ((if length out \<noteq> 1 then out @ ''/'' else out)
        @ takeWhile ?P (c # (cs @ rest))) 1 (dropWhile ?P (c # (cs @ rest)))"
    by (rule clean_loop_rooted_elem [OF c nd ndd])
  then show ?thesis using tw dw e by simp
qed

lemma clean_loop_join:
  "list_all good_elem ds \<Longrightarrow> list_all good_elem es \<Longrightarrow>
   clean_loop True (rootpath ds) 1 (join_elems es) = rootpath (ds @ es)"
proof (induction es arbitrary: ds)
  case Nil
  then show ?case by (simp add: clean_loop.simps)
next
  case (Cons e es)
  have e: "good_elem e" and es: "list_all good_elem es" using Cons.prems(2) by simp_all
  have rest: "join_elems es = [] \<or> hd (join_elems es) = CHR ''/''" by (cases es) simp_all
  have "clean_loop True (rootpath ds) 1 (join_elems (e # es)) =
        clean_loop True (rootpath ds) 1 (e @ join_elems es)"
    by (simp only: join_elems_simps clean_loop_rooted_slash)
  also have "\<dots> = clean_loop True
      ((if length (rootpath ds) \<noteq> 1 then rootpath ds @ ''/'' else rootpath ds) @ e) 1 (join_elems es)"
    by (rule good_elem_step [OF e rest])
  also have "\<dots> = clean_loop True (rootpath (ds @ [e])) 1 (join_elems es)"
    by (simp only: rootpath_snoc [OF Cons.prems(1)])
  also have "\<dots> = rootpath ((ds @ [e]) @ es)"
    using Cons.prems(1) e es by (intro Cons.IH) simp_all
  finally show ?case by simp
qed

lemma rootpath_rooted: "rootpath es \<noteq> [] \<and> rootpath es ! 0 = CHR ''/''"
  by (cases es) (simp_all add: rootpath_def)

lemma Clean_rooted_canonical:
  assumes "isUnixAddr s"
  shows "\<exists>es. list_all good_elem es \<and> Clean s = rootpath es"
proof -
  have s: "s \<noteq> []" "s ! 0 = CHR ''/''" using assms by (auto simp: isUnixAddr_def)
  obtain es where es: "list_all good_elem es"
    "clean_loop True (rootpath []) 1 (drop 1 s) = rootpath es"
    using clean_loop_rooted_canonical [of "[]" "drop 1 s"] by auto
  have "rootpath es \<noteq> []" using rootpath_rooted by simp
  then have "Clean s = rootpath es"
    using s es(2) by (simp add: Clean_def Let_def rootpath_def)
  with es(1) show ?thesis by blast
qed

lemma Clean_rootpath:
  assumes "list_all good_elem es"
  shows "Clean (rootpath es) = rootpath es"
proof -
  have d: "drop 1 (rootpath es) = drop 1 (join_elems es)"
    by (cases es) (simp_all add: rootpath_def)
  have "clean_loop True ''/'' 1 (drop 1 (rootpath es)) = rootpath es"
  proof (cases es)
    case Nil
    then show ?thesis by (simp add: rootpath_def clean_loop.simps)
  next
    case (Cons e es')
    have "clean_loop True (rootpath []) 1 (join_elems es) = rootpath ([] @ es)"
      by (rule clean_loop_join [OF _ assms]) simp
    then have "clean_loop True ''/'' 1 (CHR ''/'' # drop 1 (join_elems es)) = rootpath es"
      using Cons by (simp add: rootpath_def)
    then show ?thesis unfolding d by (simp only: clean_loop_rooted_slash)
  qed
  then show ?thesis
    using rootpath_rooted [of es] by (simp add: Clean_def Let_def)
qed

lemma Clean_idempotent_rooted: "isUnixAddr s \<Longrightarrow> Clean (Clean s) = Clean s"
  using Clean_rooted_canonical Clean_rootpath by fastforce

lemma isUnixAddr_Clean:
  assumes "isUnixAddr s"
  shows "isUnixAddr (Clean s)"
proof -
  obtain es where "Clean s = rootpath es" using Clean_rooted_canonical [OF assms] by blast
  then show ?thesis using rootpath_rooted [of es] by (simp add: isUnixAddr_def)
qed

lemma IndexByteString_None_iff: "IndexByteString s c = None \<longleftrightarrow> c \<notin> set s"
  by (induction s) auto

lemma IndexByteString_first: "c \<notin> set a \<Longrightarrow> IndexByteString (a @ c # b) c = Some (length a)"
  by (induction a) auto

lemma IndexByteString_Some:
  "IndexByteString s c = Some i \<Longrightarrow> i < length s \<and> s ! i = c \<and> c \<notin> set (take i s)"
  by (induction s arbitrary: i) (auto split: if_splits)

lemma LastIndexByteString_None_iff: "LastIndexByteString s c = None \<longleftrightarrow> c \<notin> set s"
  by (induction s) (auto split: option.splits)

lemma LastIndexByteString_last:
  "c \<notin> set b \<Longrightarrow> LastIndexByteString (a @ c # b) c = Some (length a)"
proof (induction a)
  case Nil
  then show ?case using LastIndexByteString_None_iff [of b c] by simp
next
  case (Cons x a)
  then show ?case by simp
qed

lemma LastIndexByteString_Some:
  "LastIndexByteString s c = Some i \<Longrightarrow> i < length s \<and> s ! i = c \<and> c \<notin> set (drop (Suc i) s)"
proof (induction s arbitrary: i)
  case Nil
  then show ?case by simp
next
  case (Cons x s)
  show ?case
  proof (cases "LastIndexByteString s c")
    case None
    then show ?thesis using Cons.prems LastIndexByteString_None_iff [of s c]
      by (auto split: if_splits)
  next
    case (Some k)
    then show ?thesis using Cons by auto
  qed
qed

lemma decompose_at:
  assumes "i < length s"
  shows "s = take i s @ s ! i # drop (Suc i) s"
  using assms by (simp add: id_take_nth_drop)

lemma take_front:
  "s ! 0 = c \<Longrightarrow> 0 < e \<Longrightarrow> e < length s \<Longrightarrow> take e s = c # drop 1 (take e s)"
  by (cases s; cases e) simp_all

lemma SplitHostPort_plain:
  assumes "CHR '':'' \<notin> set h" "no_brackets h" "CHR '':'' \<notin> set p" "no_brackets p"
  shows "SplitHostPort (h @ CHR '':'' # p) = Inr (h, p)"
proof -
  let ?s = "h @ CHR '':'' # p"
  have li: "LastIndexByteString ?s CHR '':'' = Some (length h)"
    by (rule LastIndexByteString_last [OF assms(3)])
  have first: "?s ! 0 \<noteq> CHR ''[''"
    using assms(2) by (cases h) (auto simp: no_brackets_def)
  have nb: "CHR ''['' \<notin> set ?s" "CHR '']'' \<notin> set ?s"
    using assms(2,4) by (auto simp: no_brackets_def)
  show ?thesis
    using li first nb assms(1)
    by (simp add: SplitHostPort_def SplitHostPort_rest_def IndexByteString_None_iff)
qed

lemma SplitHostPort_bracket:
  assumes "no_brackets h" "CHR '':'' \<notin> set p" "no_brackets p"
  shows "SplitHostPort (CHR ''['' # h @ CHR '']'' # CHR '':'' # p) = Inr (h, p)"
proof -
  let ?s = "CHR ''['' # h @ CHR '']'' # CHR '':'' # p"
  have "?s = (CHR ''['' # h @ '']'') @ CHR '':'' # p" by simp
  then have li: "LastIndexByteString ?s CHR '':'' = Some (length h + 2)"
    using LastIndexByteString_last [OF assms(2), of "CHR ''['' # h @ '']''"] by simp
  have "?s = (CHR ''['' # h) @ CHR '']'' # CHR '':'' # p" by simp
  moreover have "CHR '']'' \<notin> set (CHR ''['' # h)" using assms(1) by (simp add: no_brackets_def)
  ultimately have ei: "IndexByteString ?s CHR '']'' = Some (length h + 1)"
    using IndexByteString_first [of "CHR '']''" "CHR ''['' # h" "CHR '':'' # p"] by simp
  have nb: "CHR ''['' \<notin> set (drop 1 ?s)" "CHR '']'' \<notin> set (drop (length h + 2) ?s)"
    using assms(1,3) by (auto simp: no_brackets_def)
  show ?thesis
    using li ei nb
    by (simp add: SplitHostPort_def SplitHostPort_rest_def IndexByteString_None_iff)
qed

lemma SplitHostPort_Inr:
  assumes "SplitHostPort s = Inr (h, p)"
  shows "no_brackets h \<and> no_brackets p \<and> CHR '':'' \<notin> set p \<and>
         ((s = h @ CHR '':'' # p \<and> CHR '':'' \<notin> set h) \<or> s = CHR ''['' # h @ CHR '']'' # CHR '':'' # p)"
proof -
  obtain i where li: "LastIndexByteString s CHR '':'' = Some i"
    using assms by (cases "LastIndexByteString s CHR '':''") (auto simp: SplitHostPort_def addrErr_def)
  note L = LastIndexByteString_Some [OF li]
  have s: "s = take i s @ CHR '':'' # drop (Suc i) s" using decompose_at [of i s] L by simp
  show ?thesis
  proof (cases "s ! 0 = CHR ''[''")
    case False
    then have r: "IndexByteString (take i s) CHR '':'' = None"
      "SplitHostPort_rest s (take i s) i 0 0 = Inr (h, p)"
      using assms li by (auto simp: SplitHostPort_def addrErr_def split: if_splits)
    then have hp: "h = take i s" "p = drop (Suc i) s"
      and nb: "CHR ''['' \<notin> set s" "CHR '']'' \<notin> set s"
      by (auto simp: SplitHostPort_rest_def addrErr_def IndexByteString_None_iff split: if_splits)
    have "no_brackets h" "no_brackets p"
      using nb hp by (auto simp: no_brackets_def dest: in_set_takeD in_set_dropD)
    moreover have "CHR '':'' \<notin> set h" using r(1) hp by (simp add: IndexByteString_None_iff)
    moreover have "CHR '':'' \<notin> set p" using L hp by simp
    ultimately show ?thesis using s hp by auto
  next
    case True
    then obtain e where ei: "IndexByteString s CHR '']'' = Some e"
      using assms li by (cases "IndexByteString s CHR '']''") (auto simp: SplitHostPort_def addrErr_def)
    note E = IndexByteString_Some [OF ei]
    have r: "e + 1 = i" "SplitHostPort_rest s (drop 1 (take e s)) i 1 (e + 1) = Inr (h, p)"
      using assms li ei True by (auto simp: SplitHostPort_def addrErr_def split: if_splits)
    then have hp: "h = drop 1 (take e s)" "p = drop (Suc i) s"
      and nb: "CHR ''['' \<notin> set (drop 1 s)" "CHR '']'' \<notin> set (drop (e + 1) s)"
      by (auto simp: SplitHostPort_rest_def addrErr_def IndexByteString_None_iff split: if_splits)
    have e0: "0 < e" using True E by (cases e) auto
    have "take (Suc e) s = take e s @ [s ! e]"
      using E by (simp add: take_Suc_conv_app_nth)
    then have t: "take i s = take e s @ [CHR '']'']"
      using r(1) E by simp
    have "e < length s" using E by simp
    then have te: "take e s = CHR ''['' # h"
      unfolding hp(1) by (rule take_front [OF True e0])
    have "take i s @ CHR '':'' # drop (Suc i) s = CHR ''['' # h @ CHR '']'' # CHR '':'' # p"
      unfolding t te hp(2) by simp
    then have shape: "s = CHR ''['' # h @ CHR '']'' # CHR '':'' # p"
      by (rule trans [OF s])
    have "length (take e s) = Suc (length h)" by (simp only: te length_Cons)
    then have le: "e = Suc (length h)" using E by simp
    have d1: "drop 1 s = h @ CHR '']'' # CHR '':'' # p" by (subst shape) simp
    have d2: "drop (e + 1) s = CHR '':'' # p" unfolding le by (subst shape) simp
    have "CHR ''['' \<notin> set h" "CHR ''['' \<notin> set p" using nb(1) unfolding d1 by simp_all
    moreover have "CHR '']'' \<notin> set h" using E unfolding te by simp
    moreover have "CHR '']'' \<notin> set p" using nb(2) unfolding d2 by simp
    moreover have "CHR '':'' \<notin> set p" using L unfolding hp(2) by simp
    ultimately show ?thesis using shape by (simp add: no_brackets_def)
  qed
qed

lemma normalizeAddr_unix: "isUnixAddr s \<Longrightarrow> normalizeAddr s = Clean s"
  by (simp add: normalizeAddr_def)

lemma normalizeAddr_split:
  "\<not> isUnixAddr s \<Longrightarrow> SplitHostPort s = Inr (h, p) \<Longrightarrow>
   normalizeAddr s = JoinHostPort (if h = [] then ''localhost'' else h) (if p = [] then ''6379'' else p)"
  by (simp add: normalizeAddr_def)

lemma normalizeAddr_nosplit:
  "\<not> isUnixAddr s \<Longrightarrow> SplitHostPort s = Inl e \<Longrightarrow>
   normalizeAddr s = JoinHostPort (if s = [] then ''localhost'' else s) ''6379''"
  by (simp add: normalizeAddr_def)

lemma JoinHostPort_fixed:
  assumes "no_brackets h" "no_brackets p" "CHR '':'' \<notin> set p" "h \<noteq> []" "p \<noteq> []"
    "\<not> isUnixAddr h"
  shows "normalizeAddr (JoinHostPort h p) = JoinHostPort h p"
proof (cases "CHR '':'' \<in> set h")
  case True
  then have j: "JoinHostPort h p = CHR ''['' # h @ CHR '']'' # CHR '':'' # p"
    by (simp add: JoinHostPort_def IndexByteString_None_iff)
  have nu: "\<not> isUnixAddr (JoinHostPort h p)" unfolding j by (simp add: isUnixAddr_def)
  have sp: "SplitHostPort (JoinHostPort h p) = Inr (h, p)"
    unfolding j by (rule SplitHostPort_bracket [OF assms(1,3,2)])
  show ?thesis using normalizeAddr_split [OF nu sp] assms(4,5) by simp
next
  case False
  then have j: "JoinHostPort h p = h @ CHR '':'' # p"
    by (simp add: JoinHostPort_def IndexByteString_None_iff)
  have nu: "\<not> isUnixAddr (JoinHostPort h p)"
    unfolding j using assms(4,6) by (cases h) (simp_all add: isUnixAddr_def)
  have sp: "SplitHostPort (JoinHostPort h p) = Inr (h, p)"
    unfolding j by (rule SplitHostPort_plain [OF False assms(1,3,2)])
  show ?thesis using normalizeAddr_split [OF nu sp] assms(4,5) by simp
qed

lemma no_brackets_literals: "no_brackets ''localhost''" "no_brackets ''6379''"
  by (simp_all add: no_brackets_def)

lemma normalizeAddr_idem_split:
  assumes "\<not> isUnixAddr s" "SplitHostPort s = Inr (h, p)" "\<not> isUnixAddr h"
  shows "normalizeAddr (normalizeAddr s) = normalizeAddr s"
proof -
  let ?h = "if h = [] then ''localhost'' else h"
  let ?p = "if p = [] then ''6379'' else p"
  note I = SplitHostPort_Inr [OF assms(2)]
  have "no_brackets ?h" "no_brackets ?p" using I no_brackets_literals by simp_all
  moreover have "CHR '':'' \<notin> set ?p" using I by simp
  moreover have "?h \<noteq> []" "?p \<noteq> []" by simp_all
  moreover have "\<not> isUnixAddr ?h" using assms(3) by (auto simp: isUnixAddr_def)
  ultimately have "normalizeAddr (JoinHostPort ?h ?p) = JoinHostPort ?h ?p"
    by (rule JoinHostPort_fixed)
  then show ?thesis by (simp only: normalizeAddr_split [OF assms(1,2)])
qed

lemma normalizeAddr_idem_no_brackets:
  assumes "\<not> isUnixAddr s" "no_brackets s"
  shows "normalizeAddr (normalizeAddr s) = normalizeAddr s"
proof (cases "SplitHostPort s")
  case (Inr hp)
  obtain h p where hp: "hp = (h, p)" by (cases hp)
  note sp = Inr [unfolded hp]
  note I = SplitHostPort_Inr [OF sp]
  have "s \<noteq> CHR ''['' # h @ CHR '']'' # CHR '':'' # p"
    using assms(2) by (auto simp: no_brackets_def)
  then have s: "s = h @ CHR '':'' # p" using I by blast
  have "\<not> isUnixAddr h" using assms(1) unfolding s by (cases h) (simp_all add: isUnixAddr_def)
  then show ?thesis by (rule normalizeAddr_idem_split [OF assms(1) sp])
next
  case (Inl e)
  let ?h = "if s = [] then ''localhost'' else s"
  have "no_brackets ?h" using assms(2) no_brackets_literals by simp
  moreover have "\<not> isUnixAddr ?h" using assms(1) by (auto simp: isUnixAddr_def)
  moreover have "?h \<noteq> []" by simp
  ultimately have "normalizeAddr (JoinHostPort ?h ''6379'') = JoinHostPort ?h ''6379''"
    using no_brackets_literals by (intro JoinHostPort_fixed) simp_all
  then show ?thesis by (simp only: normalizeAddr_nosplit [OF assms(1) Inl])
qed

lemma normalizeAddr_idem_unix:
  assumes "isUnixAddr s"
  shows "normalizeAddr (normalizeAddr s) = normalizeAddr s"
  using assms isUnixAddr_Clean [OF assms] Clean_idempotent_rooted [OF assms]
  by (simp add: normalizeAddr_unix)

lemma normalizeAddr_idem:
  assumes "isUnixAddr s \<or> no_brackets s \<or> (\<exists>h p. SplitHostPort s = Inr (h, p) \<and> \<not> isUnixAddr h)"
  shows "normalizeAddr (normalizeAddr s) = normalizeAddr s"
proof (cases "isUnixAddr s")
  case True
  then show ?thesis by (rule normalizeAddr_idem_unix)
next
  case False
  then show ?thesis
    using assms normalizeAddr_idem_no_brackets [OF False] normalizeAddr_idem_split [OF False]
    by blast
qed



lemma split_on_ne: "split_on c xs \<noteq> []"
  by (induction xs) (auto split: list.splits)
















text \<open>
  C10, as stated, fails: the IPv6 literal \<^verbatim>\<open>[::1]\<close> without a port does not parse, so the
  whole string becomes the host and is bracketed again; the result does not parse either.
\<close>

theorem normalizeAddr_not_idempotent_counterexample:
  "normalizeAddr ''[::1]'' = ''[[::1]]:6379'' \<and>
   normalizeAddr (normalizeAddr ''[::1]'') = ''[[[::1]]:6379]:6379'' \<and>
   Addr (NewClient (Addr (NewClient ''[::1]'' 0 0)) 0 0) \<noteq> Addr (NewClient ''[::1]'' 0 0)"
  by (simp add: NewClient_def normalizeAddr_def isUnixAddr_def SplitHostPort_def
      SplitHostPort_rest_def addrErr_def JoinHostPort_def)

text \<open>
  C10, amended: \<^verbatim>\<open>normalizeAddr(normalizeAddr(s))\<close> equals \<^verbatim>\<open>normalizeAddr(s)\<close> for every
  \<open>s\<close> that begins with \<^verbatim>\<open>/\<close>, or holds no square bracket, or that
  \<^verbatim>\<open>net.SplitHostPort\<close> accepts with a host not beginning with \<^verbatim>\<open>/\<close>; for such an
  \<open>s\<close> the \<^verbatim>\<open>Addr\<close> of a constructed client is a fixed point of normalisation, and a
  client constructed from that \<^verbatim>\<open>Addr\<close> has the same \<^verbatim>\<open>Addr\<close>.
\<close>

theorem normalizeAddr_idempotent:
  assumes "isUnixAddr s \<or> no_brackets s \<or>
           (\<exists>h p. SplitHostPort s = Inr (h, p) \<and> \<not> isUnixAddr h)"
  shows "normalizeAddr (normalizeAddr s) = normalizeAddr s \<and>
         normalizeAddr (Addr (NewClient s t ct)) = Addr (NewClient s t ct) \<and>
         Addr (NewClient (Addr (NewClient s t ct)) t' ct') = Addr (NewClient s t ct)"
  using normalizeAddr_idem [OF assms] by (simp add: NewClient_def Let_def)

theorem normalizeAddr_idempotent_witness:
  "no_brackets ''redis.example:'' \<and>
   normalizeAddr ''redis.example:'' = ''redis.example:6379'' \<and>
   normalizeAddr (normalizeAddr ''redis.example:'') = ''redis.example:6379'' \<and>
   Addr (NewClient (Addr (NewClient ''redis.example:'' 0 0)) 5 7) = ''redis.example:6379''"
proof -
  have nb: "no_brackets ''redis.example:''" by (simp add: no_brackets_def)
  have n: "normalizeAddr ''redis.example:'' = ''redis.example:6379''"
    by (simp add: normalizeAddr_def isUnixAddr_def SplitHostPort_def
        SplitHostPort_rest_def JoinHostPort_def)
  have a: "Addr (NewClient ''redis.example:'' 0 0) = normalizeAddr ''redis.example:''"
    by (simp add: NewClient_def Let_def)
  show ?thesis
    using normalizeAddr_idempotent [of "''redis.example:''" 0 0 5 7] nb n a by simp
qed

end
